theory Spec2Isabelle
  imports Main
begin

section \<open>The game engine of \<open>tic_tac_toe_frontend/src/app/page.tsx\<close>\<close>

subsection \<open>Data\<close>

text \<open>
  \<^verbatim>\<open>type Player = "X" | "O"; type Cell = Player | null;\<close>
  The two players are \<open>PX\<close> and \<open>PO\<close>. A JavaScript read \<^verbatim>\<open>board[i]\<close> can also
  give \<^verbatim>\<open>undefined\<close> (an absent index or a hole of a sparse array), so the values a
  slot can show are \<open>Undefined\<close>, \<open>Null\<close> and \<open>Mark p\<close>. Holes are modelled as slots
  holding \<open>Undefined\<close>: the only array methods the program uses are \<^verbatim>\<open>every\<close>,
  \<^verbatim>\<open>some\<close>, \<^verbatim>\<open>map\<close>, \<^verbatim>\<open>filter\<close> and \<^verbatim>\<open>slice\<close>, and with the callbacks of this
  program each of them gives the same result on a hole as on \<^verbatim>\<open>undefined\<close>.
\<close>

datatype Player = PX | PO

datatype Cell = Undefined | Null | Mark Player

text \<open>
  A JavaScript array: its indexed elements (the list has the array's \<^verbatim>\<open>length\<close>) and
  the properties stored under keys that are not array indices (a negative integer, or
  one from \<open>2^32 - 1\<close> on). The program only ever stores a player there.
\<close>

record JsArray =
  elems :: "Cell list"
  props :: "int \<rightharpoonup> Player"

definition is_index :: "int \<Rightarrow> bool" where
  "is_index i \<longleftrightarrow> 0 \<le> i \<and> i < 2 ^ 32 - 1"

text \<open>
  \<^verbatim>\<open>a[i]\<close> as a read: the element when \<open>i\<close> is inside the array, \<^verbatim>\<open>undefined\<close> at
  any other array index, the property (or \<^verbatim>\<open>undefined\<close>) at any other key.
\<close>

definition arr_get :: "JsArray \<Rightarrow> int \<Rightarrow> Cell" where
  "arr_get a i =
     (if 0 \<le> i \<and> i < int (length (elems a)) then elems a ! nat i
      else if is_index i then Undefined
      else (case props a i of None \<Rightarrow> Undefined | Some p \<Rightarrow> Mark p))"

text \<open>
  \<^verbatim>\<open>a[i] = p\<close>: inside the array the element is replaced; at an index from the length
  on the array grows to \<open>i + 1\<close> elements, the new ones before \<open>i\<close> being holes; at a key
  that is not an array index a property is set and the length stays.
\<close>

definition arr_set :: "JsArray \<Rightarrow> int \<Rightarrow> Player \<Rightarrow> JsArray" where
  "arr_set a i p =
     (if 0 \<le> i \<and> i < int (length (elems a))
      then a\<lparr>elems := (elems a)[nat i := Mark p]\<rparr>
      else if is_index i
      then a\<lparr>elems := elems a @ replicate (nat i - length (elems a)) Undefined @ [Mark p]\<rparr>
      else a\<lparr>props := (props a)(i \<mapsto> p)\<rparr>)"

text \<open>\<^verbatim>\<open>a.slice()\<close> copies the indexed elements only.\<close>

definition slice :: "JsArray \<Rightarrow> JsArray" where
  "slice a = \<lparr>elems = elems a, props = Map.empty\<rparr>"

text \<open>Truthiness: \<^verbatim>\<open>"X"\<close> and \<^verbatim>\<open>"O"\<close> are truthy, \<^verbatim>\<open>null\<close> and \<^verbatim>\<open>undefined\<close> are not.\<close>

fun truthy :: "Cell \<Rightarrow> bool" where
  "truthy (Mark p) = True"
| "truthy Null = False"
| "truthy Undefined = False"

fun player_of :: "Cell \<Rightarrow> Player option" where
  "player_of (Mark p) = Some p"
| "player_of Null = None"
| "player_of Undefined = None"

text \<open>\<^verbatim>\<open>const EMPTY_BOARD: Cell[] = Array(9).fill(null);\<close>\<close>

definition EMPTY_BOARD :: JsArray where
  "EMPTY_BOARD = \<lparr>elems = replicate 9 Null, props = Map.empty\<rparr>"

subsection \<open>\<open>getWinner\<close>, \<open>getAvailableMoves\<close>, \<open>isBoardFull\<close>\<close>

definition lines :: "(int \<times> int \<times> int) list" where
  "lines = [(0, 1, 2), (3, 4, 5), (6, 7, 8),
            (0, 3, 6), (1, 4, 7), (2, 5, 8),
            (0, 4, 8), (2, 4, 6)]"

text \<open>The \<^verbatim>\<open>for (const line of lines)\<close> loop, returning at the first complete line.\<close>

fun scan :: "(int \<times> int \<times> int) list \<Rightarrow> JsArray \<Rightarrow> Player option" where
  "scan [] board = None"
| "scan ((a, b, c) # rest) board =
     (if truthy (arr_get board a)
         \<and> arr_get board a = arr_get board b
         \<and> arr_get board a = arr_get board c
      then player_of (arr_get board a)
      else scan rest board)"

definition getWinner :: "JsArray \<Rightarrow> Player option" where
  "getWinner board = scan lines board"

text \<open>
  \<^verbatim>\<open>board.map((cell, idx) => (cell === null ? idx : null)).filter(x => x !== null)\<close>:
  the indices of the elements that are \<^verbatim>\<open>null\<close>, in rising order.
\<close>

definition getAvailableMoves :: "JsArray \<Rightarrow> int list" where
  "getAvailableMoves board =
     map int (filter (\<lambda>i. elems board ! i = Null) [0 ..< length (elems board)])"

text \<open>\<^verbatim>\<open>board.every((cell) => cell !== null)\<close>\<close>

definition isBoardFull :: "JsArray \<Rightarrow> bool" where
  "isBoardFull board = list_all (\<lambda>cell. cell \<noteq> Null) (elems board)"

subsection \<open>The component state\<close>

text \<open>
  \<^verbatim>\<open>winner: Player | "Draw" | null\<close> is \<open>Outcome option\<close>; the score object
  \<^verbatim>\<open>{ X: number; O: number }\<close> is a record of two counters. The counters are
  JavaScript numbers, exact on the integers below \<open>2^53\<close>; they are naturals here.
\<close>

datatype Outcome = Won Player | Draw

record Score =
  scoreX :: nat
  scoreO :: nat

record state =
  board :: JsArray
  current :: Player
  aiMode :: bool
  winner :: "Outcome option"
  score :: Score
  startingPlayer :: Player

definition initial :: state where
  "initial = \<lparr>board = EMPTY_BOARD, current = PX, aiMode = False, winner = None,
              score = \<lparr>scoreX = 0, scoreO = 0\<rparr>, startingPlayer = PX\<rparr>"

fun other :: "Player \<Rightarrow> Player" where
  "other PX = PO"
| "other PO = PX"

fun score_of :: "Score \<Rightarrow> Player \<Rightarrow> nat" where
  "score_of sc PX = scoreX sc"
| "score_of sc PO = scoreO sc"

text \<open>\<^verbatim>\<open>(prev) => ({ ...prev, [possibleWinner]: prev[possibleWinner] + 1 })\<close>\<close>

fun bump :: "Player \<Rightarrow> Score \<Rightarrow> Score" where
  "bump PX prev = prev\<lparr>scoreX := scoreX prev + 1\<rparr>"
| "bump PO prev = prev\<lparr>scoreO := scoreO prev + 1\<rparr>"

subsection \<open>\<open>makeMove\<close>\<close>

text \<open>
  \<open>makeMove\<close> is created anew by every render and reads \<open>board\<close>, \<open>winner\<close> and
  \<open>current\<close> of the render \<open>r\<close> that created it; its state setters act on the state
  \<open>s\<close> the component has when it is called. \<^verbatim>\<open>setBoard\<close>, \<^verbatim>\<open>setWinner\<close> and
  \<^verbatim>\<open>setCurrent\<close> store values computed from \<open>r\<close>; \<^verbatim>\<open>setScore\<close> is given an updater
  and so increments the score of \<open>s\<close>.
\<close>

definition rejected :: "state \<Rightarrow> int \<Rightarrow> bool" where
  "rejected r idx \<longleftrightarrow> truthy (arr_get (board r) idx) \<or> winner r \<noteq> None"

definition makeMove :: "state \<Rightarrow> int \<Rightarrow> state \<Rightarrow> state" where
  "makeMove r idx s =
     (if rejected r idx then s
      else
        let newBoard = arr_set (slice (board r)) idx (current r);
            possibleWinner = getWinner newBoard
        in case possibleWinner of
             Some p \<Rightarrow> s\<lparr>board := newBoard, winner := Some (Won p), score := bump p (score s)\<rparr>
           | None \<Rightarrow>
               if isBoardFull newBoard
               then s\<lparr>board := newBoard, winner := Some Draw\<rparr>
               else s\<lparr>board := newBoard, current := other (current r)\<rparr>)"

text \<open>
  A click on a cell, or any other call of the \<open>makeMove\<close> of the latest render: the
  render it reads is the state it changes. This is the operation \<open>placeMark\<close>.
\<close>

definition placeMark :: "int \<Rightarrow> state \<Rightarrow> state" where
  "placeMark idx s = makeMove s idx s"

subsection \<open>\<open>restartGame\<close>, \<open>resetAll\<close>, the mode button\<close>

definition restartGame :: "state \<Rightarrow> state" where
  "restartGame s =
     (let nextStarting = other (startingPlayer s)
      in s\<lparr>board := EMPTY_BOARD, winner := None,
           startingPlayer := nextStarting, current := nextStarting\<rparr>)"

definition resetAll :: "state \<Rightarrow> state" where
  "resetAll s =
     s\<lparr>board := EMPTY_BOARD, winner := None, score := \<lparr>scoreX = 0, scoreO = 0\<rparr>,
       aiMode := False, startingPlayer := PX, current := PX\<rparr>"

text \<open>
  The mode button: \<^verbatim>\<open>onClick={() => setAIMode((prev) => !prev)}\<close> with
  \<^verbatim>\<open>disabled={score.X > 0 || score.O > 0 || board.some((v) => v)}\<close>. A disabled
  button does not run its handler.
\<close>

definition toggleDisabled :: "state \<Rightarrow> bool" where
  "toggleDisabled s \<longleftrightarrow>
     scoreX (score s) > 0 \<or> scoreO (score s) > 0 \<or> list_ex truthy (elems (board s))"

definition toggleAI :: "state \<Rightarrow> state" where
  "toggleAI s = (if toggleDisabled s then s else s\<lparr>aiMode := \<not> aiMode s\<rparr>)"

subsection \<open>\<open>aiMove\<close> and the timer it sets\<close>

text \<open>
  \<open>aiMove\<close> of render \<open>r\<close> gives the move for which it sets a timer, or \<open>None\<close>
  when it returns without setting one. \<^verbatim>\<open>Math.floor(Math.random() * open.length)\<close> is
  some position of \<open>open\<close>; it is \<open>k mod length open\<close>, which takes every position as
  the draw \<open>k\<close> ranges over the naturals.
\<close>

definition aiMove :: "state \<Rightarrow> nat \<Rightarrow> int option" where
  "aiMove r k =
     (if \<not> aiMode r \<or> winner r \<noteq> None \<or> current r \<noteq> PO then None
      else
        let open = getAvailableMoves (board r)
        in if length open > 0 then Some (open ! (k mod length open)) else None)"

text \<open>
  The component together with its pending timers. A timer
  \<^verbatim>\<open>setTimeout(() => makeMove(move), 500)\<close> holds the \<open>makeMove\<close> of the render \<open>r\<close>
  in which \<open>aiMove\<close> ran, and the move: the pair \<open>(r, move)\<close>. All delays are equal,
  so timers fire in the order they were set.
\<close>

record system =
  live :: state
  timers :: "(state \<times> int) list"

definition sys_initial :: system where
  "sys_initial = \<lparr>live = initial, timers = []\<rparr>"

text \<open>
  \<^verbatim>\<open>React.useEffect(() => { aiMove(); }, [current, board, aiMode, winner])\<close> runs
  \<open>aiMove\<close> of the new render after every render in which one of the four values
  changed. Every handler that sets state stores a fresh board array or a new mode, so
  the effect runs after every handler that did not return early.
\<close>

definition effect :: "nat \<Rightarrow> system \<Rightarrow> system" where
  "effect k c =
     (case aiMove (live c) k of
        None \<Rightarrow> c
      | Some move \<Rightarrow> c\<lparr>timers := timers c @ [(live c, move)]\<rparr>)"

datatype Event = Click int | Restart | Reset | Toggle | Fire

text \<open>
  One event of the event loop, \<open>k\<close> being the random draw of the effect that may
  follow it. \<open>Fire\<close> runs the oldest pending timer.
\<close>

fun sys_step :: "Event \<Rightarrow> nat \<Rightarrow> system \<Rightarrow> system" where
  "sys_step (Click idx) k c =
     (if rejected (live c) idx then c
      else effect k (c\<lparr>live := placeMark idx (live c)\<rparr>))"
| "sys_step Restart k c = effect k (c\<lparr>live := restartGame (live c)\<rparr>)"
| "sys_step Reset k c = effect k (c\<lparr>live := resetAll (live c)\<rparr>)"
| "sys_step Toggle k c =
     (if toggleDisabled (live c) then c
      else effect k (c\<lparr>live := toggleAI (live c)\<rparr>))"
| "sys_step Fire k c =
     (case timers c of
        [] \<Rightarrow> c
      | (r, move) # rest \<Rightarrow>
          if rejected r move then c\<lparr>timers := rest\<rparr>
          else effect k (c\<lparr>live := makeMove r move (live c), timers := rest\<rparr>))"

definition sys_run :: "(Event \<times> nat) list \<Rightarrow> system \<Rightarrow> system" where
  "sys_run evs c = foldl (\<lambda>c (e, k). sys_step e k c) c evs"

subsection \<open>Sequences of operations\<close>

text \<open>
  The four inputs of the engine, each applied to the state the component has when it
  arrives. A computer move that fires before anything else happens is a \<open>PlaceMark\<close>
  on a free cell. Beside the state, a run records the mark of the last placement that
  was not rejected.
\<close>

datatype Op = PlaceMark int | RestartRound | ResetAll | ToggleMode

fun apply_op :: "Op \<Rightarrow> state \<Rightarrow> state" where
  "apply_op (PlaceMark idx) s = placeMark idx s"
| "apply_op RestartRound s = restartGame s"
| "apply_op ResetAll s = resetAll s"
| "apply_op ToggleMode s = toggleAI s"

fun placer :: "Op \<Rightarrow> state \<Rightarrow> Player option \<Rightarrow> Player option" where
  "placer (PlaceMark idx) s g = (if rejected s idx then g else Some (current s))"
| "placer RestartRound s g = g"
| "placer ResetAll s g = g"
| "placer ToggleMode s g = g"

definition op_step :: "state \<times> Player option \<Rightarrow> Op \<Rightarrow> state \<times> Player option" where
  "op_step c op = (apply_op op (fst c), placer op (fst c) (snd c))"

definition run :: "Op list \<Rightarrow> state \<times> Player option" where
  "run ops = foldl op_step (initial, None) ops"

subsection \<open>Notions of the specification\<close>

text \<open>
  The eight fixed triples as the specification lists them, and "some triple holds
  three equal non-empty marks", the marks being \<open>m\<close>.
\<close>

definition spec_triples :: "(int \<times> int \<times> int) set" where
  "spec_triples = {(0, 1, 2), (3, 4, 5), (6, 7, 8), (0, 3, 6), (1, 4, 7), (2, 5, 8),
                   (0, 4, 8), (2, 4, 6)}"

definition three_in_line :: "Player \<Rightarrow> JsArray \<Rightarrow> bool" where
  "three_in_line m b \<longleftrightarrow>
     (\<exists>(i, j, k) \<in> spec_triples.
        arr_get b i = Mark m \<and> arr_get b j = Mark m \<and> arr_get b k = Mark m)"

text \<open>The nine cells: "all 9 cells are non-empty", "the board is entirely empty".\<close>

definition cells_full :: "JsArray \<Rightarrow> bool" where
  "cells_full b \<longleftrightarrow> (\<forall>i \<in> {0 .. 8}. truthy (arr_get b i))"

definition cells_empty :: "JsArray \<Rightarrow> bool" where
  "cells_empty b \<longleftrightarrow> (\<forall>i \<in> {0 .. 8}. \<not> truthy (arr_get b i))"

text \<open>Exchanging the two marks, cell by cell.\<close>

fun swap_cell :: "Cell \<Rightarrow> Cell" where
  "swap_cell (Mark p) = Mark (other p)"
| "swap_cell Null = Null"
| "swap_cell Undefined = Undefined"

definition swap_board :: "JsArray \<Rightarrow> JsArray" where
  "swap_board b = \<lparr>elems = map swap_cell (elems b), props = map_option other \<circ> props b\<rparr>"

subsection \<open>Invariants\<close>

text \<open>
  The nine cells exist and are never holes, and no element beyond them is \<^verbatim>\<open>null\<close>:
  on such a board \<open>isBoardFull\<close> looks at the nine cells only.
\<close>

definition wf_board :: "JsArray \<Rightarrow> bool" where
  "wf_board b \<longleftrightarrow>
     9 \<le> length (elems b)
     \<and> (\<forall>n < 9. elems b ! n \<noteq> Undefined)
     \<and> (\<forall>n < length (elems b). 9 \<le> n \<longrightarrow> elems b ! n \<noteq> Null)"

definition consistent :: "state \<Rightarrow> bool" where
  "consistent s \<longleftrightarrow>
     wf_board (board s)
     \<and> (winner s = None \<longrightarrow> getWinner (board s) = None \<and> \<not> cells_full (board s))
     \<and> (\<forall>m. winner s = Some (Won m) \<longrightarrow> getWinner (board s) = Some m \<and> current s = m)
     \<and> (winner s = Some Draw \<longrightarrow> cells_full (board s) \<and> getWinner (board s) = None)"

text \<open>The scenario of the specification: X at 0, O at 3, X at 1, O at 4; X is to move.\<close>

definition scenario :: "Op list" where
  "scenario = [PlaceMark 0, PlaceMark 3, PlaceMark 1, PlaceMark 4]"

text \<open>A full game without a complete line: X takes 0, 2, 3, 5, 7 and O takes 1, 4, 6, 8.\<close>

definition draw_scenario :: "Op list" where
  "draw_scenario = [PlaceMark 0, PlaceMark 1, PlaceMark 2, PlaceMark 4, PlaceMark 3,
                    PlaceMark 6, PlaceMark 5, PlaceMark 8, PlaceMark 7]"

text \<open>
  What \<open>aiMove\<close> has checked in the render \<open>r\<close> in which it sets a timer for \<open>move\<close>.
\<close>

definition validated :: "state \<times> int \<Rightarrow> bool" where
  "validated t \<longleftrightarrow>
     (case t of (r, move) \<Rightarrow>
        aiMode r \<and> winner r = None \<and> current r = PO
        \<and> 0 \<le> move \<and> move < int (length (elems (board r)))
        \<and> elems (board r) ! nat move = Null)"

text \<open>
  A run of the event loop from the start: the mode is switched on and X clicks cell 0,
  so that the effect sets a timer for the first free cell, 1; the user then resets
  everything while the timer is pending.
\<close>

definition stale_cfg :: system where
  "stale_cfg = sys_run [(Toggle, 0), (Click 0, 0), (Reset, 0)] sys_initial"

text \<open>
  Another run: with the mode on, X clicks 0 and the timer puts O on 3, X clicks 1 and
  the timer puts O on 4, X clicks 8 and the effect sets a timer for cell 7. While it is
  pending the user clicks cell 5: the turn is O's, so this puts O on 5 and O wins with
  3, 4, 5.
\<close>

definition stale_win_run :: "(Event \<times> nat) list" where
  "stale_win_run = [(Toggle, 0), (Click 0, 2), (Fire, 0), (Click 1, 1), (Fire, 0),
                    (Click 8, 3), (Click 5, 0)]"

definition stale_win_cfg :: system where
  "stale_win_cfg = sys_run stale_win_run sys_initial"

text \<open>
  An event whose click, if it is one, is on one of the nine cells; and an operation
  read as the event that delivers it.
\<close>

definition click_in_range :: "Event \<times> nat \<Rightarrow> bool" where
  "click_in_range ev = (case fst ev of Click idx \<Rightarrow> 0 \<le> idx \<and> idx \<le> 8 | _ \<Rightarrow> True)"

fun event_of :: "Op \<Rightarrow> Event" where
  "event_of (PlaceMark idx) = Click idx"
| "event_of RestartRound = Restart"
| "event_of ResetAll = Reset"
| "event_of ToggleMode = Toggle"

text \<open>
  The board of the component and the board of every render held by a pending timer
  have nine elements, and every pending timer has passed the checks of \<open>aiMove\<close>.
\<close>

definition sized :: "system \<Rightarrow> bool" where
  "sized c \<longleftrightarrow>
     length (elems (board (live c))) = 9
     \<and> (\<forall>t \<in> set (timers c). length (elems (board (fst t))) = 9 \<and> validated t)"

section \<open>Properties\<close>

subsection \<open>Arrays and the scan of the lines\<close>

lemma elems_EMPTY: "elems EMPTY_BOARD = [Null, Null, Null, Null, Null, Null, Null, Null, Null]"
  by (simp add: EMPTY_BOARD_def numeral_eq_Suc)

lemma arr_get_slice: "is_index i \<Longrightarrow> arr_get (slice a) i = arr_get a i"
  by (simp add: arr_get_def slice_def)

lemma arr_get_set_same: "arr_get (arr_set a i p) i = Mark p"
  by (auto simp: arr_get_def arr_set_def is_index_def nth_append)

lemma arr_get_set_other:
  "is_index j \<Longrightarrow> j \<noteq> i \<Longrightarrow> arr_get (arr_set a i p) j = arr_get a j"
  by (auto simp: arr_get_def arr_set_def is_index_def nth_append nat_eq_iff)

lemma arr_get_write:
  "is_index j \<Longrightarrow>
   arr_get (arr_set (slice a) i p) j = (if j = i then Mark p else arr_get a j)"
  by (simp add: arr_get_set_same arr_get_set_other arr_get_slice)

lemma scan_Cons:
  "scan ((a, b, c) # rest) bd =
     (case arr_get bd a of
        Mark m \<Rightarrow> if arr_get bd b = Mark m \<and> arr_get bd c = Mark m then Some m
                  else scan rest bd
      | _ \<Rightarrow> scan rest bd)"
  by (cases "arr_get bd a") auto

lemma scan_None:
  "scan ls b = None \<longleftrightarrow>
   (\<forall>(i, j, k) \<in> set ls. \<forall>m. \<not> (arr_get b i = Mark m \<and> arr_get b j = Mark m \<and> arr_get b k = Mark m))"
proof (induction ls)
  case Nil
  show ?case by simp
next
  case (Cons l ls)
  obtain i j k where l: "l = (i, j, k)" by (cases l) auto
  show ?case unfolding l scan_Cons using Cons
    by (cases "arr_get b i") auto
qed

lemma scan_Some:
  "scan ls b = Some m \<Longrightarrow>
   \<exists>(i, j, k) \<in> set ls. arr_get b i = Mark m \<and> arr_get b j = Mark m \<and> arr_get b k = Mark m"
proof (induction ls)
  case Nil
  then show ?case by simp
next
  case (Cons l ls)
  obtain i j k where l: "l = (i, j, k)" by (cases l) auto
  from Cons show ?case unfolding l scan_Cons
    by (cases "arr_get b i") (auto split: if_splits)
qed

lemma set_lines: "set lines = spec_triples"
  by (simp add: lines_def spec_triples_def)

lemma getWinner_None: "getWinner b = None \<longleftrightarrow> (\<forall>m. \<not> three_in_line m b)"
  unfolding getWinner_def three_in_line_def scan_None set_lines by blast

lemma getWinner_Some: "getWinner b = Some m \<Longrightarrow> three_in_line m b"
  unfolding getWinner_def three_in_line_def using scan_Some[of lines b m] set_lines by simp

lemma length_write:
  "length (elems (arr_set (slice a) i p)) =
     (if 0 \<le> i \<and> i < int (length (elems a)) then length (elems a)
      else if is_index i then nat i + 1 else length (elems a))"
  by (auto simp: arr_set_def slice_def is_index_def)

lemma nth_write:
  "n < length (elems (arr_set (slice a) i p)) \<Longrightarrow>
   elems (arr_set (slice a) i p) ! n =
     (if 0 \<le> i \<and> n = nat i then Mark p
      else if n < length (elems a) then elems a ! n else Undefined)"
  by (auto simp: arr_set_def slice_def is_index_def nth_append nth_list_update split: if_splits)

lemma arr_get_cell:
  "9 \<le> length (elems b) \<Longrightarrow> 0 \<le> i \<Longrightarrow> i \<le> 8 \<Longrightarrow> arr_get b i = elems b ! nat i"
  by (simp add: arr_get_def)

lemma wf_board_write:
  assumes "wf_board b"
  shows "wf_board (arr_set (slice b) i p)"
proof -
  let ?b = "arr_set (slice b) i p"
  from assms have len: "9 \<le> length (elems b)"
    and low: "\<And>n. n < 9 \<Longrightarrow> elems b ! n \<noteq> Undefined"
    and high: "\<And>n. n < length (elems b) \<Longrightarrow> 9 \<le> n \<Longrightarrow> elems b ! n \<noteq> Null"
    by (auto simp: wf_board_def)
  have grow: "length (elems b) \<le> length (elems ?b)"
    by (auto simp: length_write is_index_def)
  have 1: "9 \<le> length (elems ?b)" using len grow by simp
  have 2: "elems ?b ! n \<noteq> Undefined" if "n < 9" for n
  proof -
    have "n < length (elems ?b)" using that 1 by simp
    then show ?thesis using that len low[OF that] by (simp add: nth_write)
  qed
  have 3: "elems ?b ! n \<noteq> Null" if "n < length (elems ?b)" "9 \<le> n" for n
    using that high[of n] by (simp add: nth_write)
  show ?thesis unfolding wf_board_def using 1 2 3 by blast
qed

lemma wf_board_EMPTY: "wf_board EMPTY_BOARD"
  by (simp add: wf_board_def EMPTY_BOARD_def)

lemma cells_full_iff:
  assumes "wf_board b"
  shows "isBoardFull b \<longleftrightarrow> cells_full b"
proof
  assume f: "isBoardFull b"
  show "cells_full b" unfolding cells_full_def
  proof
    fix i :: int assume i: "i \<in> {0 .. 8}"
    then have n: "nat i < 9" "nat i < length (elems b)" using assms by (auto simp: wf_board_def)
    have g: "arr_get b i = elems b ! nat i" using i assms by (simp add: arr_get_cell wf_board_def)
    have "elems b ! nat i \<noteq> Null" using f n by (simp add: isBoardFull_def list_all_length)
    moreover have "elems b ! nat i \<noteq> Undefined" using assms n by (simp add: wf_board_def)
    ultimately show "truthy (arr_get b i)" unfolding g by (cases "elems b ! nat i") auto
  qed
next
  assume c: "cells_full b"
  show "isBoardFull b" unfolding isBoardFull_def list_all_length
  proof (intro allI impI)
    fix n assume n: "n < length (elems b)"
    show "elems b ! n \<noteq> Null"
    proof (cases "n < 9")
      case True
      then have "int n \<in> {0 .. 8}" by auto
      with c have "truthy (arr_get b (int n))" unfolding cells_full_def by blast
      moreover have "arr_get b (int n) = elems b ! n" using True assms
        by (subst arr_get_cell) (auto simp: wf_board_def)
      ultimately show ?thesis by auto
    next
      case False
      with assms n show ?thesis by (simp add: wf_board_def)
    qed
  qed
qed

lemma triple_index:
  "(i, j, k) \<in> spec_triples \<Longrightarrow> is_index i \<and> is_index j \<and> is_index k"
  by (auto simp: spec_triples_def is_index_def)

lemma line_after_write:
  assumes none: "\<forall>m. \<not> three_in_line m b"
    and line: "three_in_line m (arr_set (slice b) idx p)"
  shows "m = p"
proof (rule ccontr)
  assume neq: "m \<noteq> p"
  from line obtain i j k where t: "(i, j, k) \<in> spec_triples"
    and m: "arr_get (arr_set (slice b) idx p) i = Mark m"
           "arr_get (arr_set (slice b) idx p) j = Mark m"
           "arr_get (arr_set (slice b) idx p) k = Mark m"
    unfolding three_in_line_def by blast
  from t have ix: "is_index i" "is_index j" "is_index k" using triple_index by blast+
  from m neq have "arr_get b i = Mark m" "arr_get b j = Mark m" "arr_get b k = Mark m"
    by (auto simp: arr_get_write ix split: if_splits)
  with t have "three_in_line m b" unfolding three_in_line_def by blast
  with none show False by blast
qed

lemma getWinner_after_write:
  assumes "getWinner b = None"
  shows "three_in_line m (arr_set (slice b) idx p) \<longleftrightarrow>
         getWinner (arr_set (slice b) idx p) = Some m"
proof
  let ?b = "arr_set (slice b) idx p"
  from assms have none: "\<forall>m. \<not> three_in_line m b" by (simp add: getWinner_None)
  assume l: "three_in_line m ?b"
  then have "getWinner ?b \<noteq> None" by (auto simp: getWinner_None)
  then obtain m' where w: "getWinner ?b = Some m'" by auto
  then have "three_in_line m' ?b" by (rule getWinner_Some)
  with none l have "m' = p" "m = p" by (auto dest: line_after_write)
  with w show "getWinner ?b = Some m" by simp
qed (rule getWinner_Some)

lemma makeMove_rejected: "rejected r idx \<Longrightarrow> makeMove r idx s = s"
  by (simp add: makeMove_def)

lemma makeMove_won:
  "\<not> rejected r idx \<Longrightarrow> getWinner (arr_set (slice (board r)) idx (current r)) = Some p \<Longrightarrow>
   makeMove r idx s =
     s\<lparr>board := arr_set (slice (board r)) idx (current r), winner := Some (Won p),
       score := bump p (score s)\<rparr>"
  by (simp add: makeMove_def)

lemma makeMove_draw:
  "\<not> rejected r idx \<Longrightarrow> getWinner (arr_set (slice (board r)) idx (current r)) = None \<Longrightarrow>
   isBoardFull (arr_set (slice (board r)) idx (current r)) \<Longrightarrow>
   makeMove r idx s =
     s\<lparr>board := arr_set (slice (board r)) idx (current r), winner := Some Draw\<rparr>"
  by (simp add: makeMove_def)

lemma makeMove_continue:
  "\<not> rejected r idx \<Longrightarrow> getWinner (arr_set (slice (board r)) idx (current r)) = None \<Longrightarrow>
   \<not> isBoardFull (arr_set (slice (board r)) idx (current r)) \<Longrightarrow>
   makeMove r idx s =
     s\<lparr>board := arr_set (slice (board r)) idx (current r), current := other (current r)\<rparr>"
  by (simp add: makeMove_def)

lemma board_makeMove:
  "\<not> rejected r idx \<Longrightarrow> board (makeMove r idx s) = arr_set (slice (board r)) idx (current r)"
  by (simp add: makeMove_def Let_def split: option.splits)

lemma consistent_placeMark:
  assumes c: "consistent s"
  shows "consistent (placeMark idx s)"
proof (cases "rejected s idx")
  case True
  with c show ?thesis by (simp add: placeMark_def makeMove_rejected)
next
  case False
  let ?b = "arr_set (slice (board s)) idx (current s)"
  from False have w: "winner s = None" by (simp add: rejected_def)
  with c have gw: "getWinner (board s) = None" and wf: "wf_board (board s)"
    by (auto simp: consistent_def)
  have wf': "wf_board ?b" using wf by (rule wf_board_write)
  show ?thesis
  proof (cases "getWinner ?b")
    case (Some p)
    then have "three_in_line p ?b" by (rule getWinner_Some)
    with gw have "p = current s" by (auto simp: getWinner_None dest: line_after_write)
    with Some wf' show ?thesis
      unfolding placeMark_def makeMove_won[OF False Some] by (simp add: consistent_def)
  next
    case None
    show ?thesis
    proof (cases "isBoardFull ?b")
      case True
      with None wf' show ?thesis
        unfolding placeMark_def makeMove_draw[OF False None True]
        by (simp add: consistent_def cells_full_iff)
    next
      case nf: False
      with None wf' show ?thesis
        unfolding placeMark_def makeMove_continue[OF False None nf]
        by (simp add: consistent_def cells_full_iff w)
    qed
  qed
qed

lemma getWinner_EMPTY: "getWinner EMPTY_BOARD = None"
  by (simp add: getWinner_def lines_def arr_get_def elems_EMPTY)

lemma not_full_EMPTY: "\<not> cells_full EMPTY_BOARD"
  by (auto simp: cells_full_def arr_get_def elems_EMPTY intro: bexI[of _ 0])

lemma consistent_initial: "consistent initial"
  by (simp add: consistent_def initial_def wf_board_EMPTY getWinner_EMPTY not_full_EMPTY)

lemma consistent_restartGame: "consistent (restartGame s)"
  by (simp add: consistent_def restartGame_def Let_def wf_board_EMPTY getWinner_EMPTY not_full_EMPTY)

lemma consistent_resetAll: "consistent (resetAll s)"
  by (simp add: consistent_def resetAll_def wf_board_EMPTY getWinner_EMPTY not_full_EMPTY)

lemma consistent_toggleAI: "consistent s \<Longrightarrow> consistent (toggleAI s)"
  by (simp add: consistent_def toggleAI_def)

lemma consistent_apply_op: "consistent s \<Longrightarrow> consistent (apply_op op s)"
  by (cases op)
    (simp_all add: consistent_placeMark consistent_restartGame consistent_resetAll
      consistent_toggleAI)

lemma run_snoc: "run (ops @ [op]) = op_step (run ops) op"
  by (simp add: run_def)

lemma consistent_run: "consistent (fst (run ops))"
proof (induction ops rule: rev_induct)
  case Nil
  show ?case by (simp add: run_def consistent_initial)
next
  case (snoc op ops)
  then show ?case by (simp add: run_snoc op_step_def consistent_apply_op)
qed

lemma triple_cell:
  "(i, j, k) \<in> spec_triples \<Longrightarrow> i \<in> {0 .. 8} \<and> j \<in> {0 .. 8} \<and> k \<in> {0 .. 8}"
  by (auto simp: spec_triples_def)

lemma scan_cong:
  "\<forall>(i, j, k) \<in> set ls.
      arr_get b' i = arr_get b i \<and> arr_get b' j = arr_get b j \<and> arr_get b' k = arr_get b k \<Longrightarrow>
   scan ls b' = scan ls b"
  by (induction ls b rule: scan.induct) auto

lemma getWinner_cong:
  assumes "\<forall>i \<in> {0 .. 8}. arr_get b' i = arr_get b i"
  shows "getWinner b' = getWinner b"
  unfolding getWinner_def
proof (rule scan_cong, unfold set_lines, clarify)
  fix i j k assume "(i, j, k) \<in> spec_triples"
  then have "i \<in> {0 .. 8}" "j \<in> {0 .. 8}" "k \<in> {0 .. 8}" using triple_cell by blast+
  with assms show "arr_get b' i = arr_get b i \<and> arr_get b' j = arr_get b j \<and> arr_get b' k = arr_get b k"
    by blast
qed

lemma cells_full_cong:
  assumes "\<forall>i \<in> {0 .. 8}. arr_get b' i = arr_get b i"
  shows "cells_full b' = cells_full b"
  using assms by (simp add: cells_full_def)

subsection \<open>Placing a mark\<close>

text \<open>
  Claim C1. In every state reached by a sequence of operations in which the round is
  open (\<open>winner = None\<close>), \<open>placeMark\<close> on a free cell \<open>idx\<close> of \<open>0..8\<close> writes the
  mark of \<open>current\<close> into that cell and leaves the other cells; then, if some triple of
  the eight lines holds three equal marks \<open>m\<close>, the winner is \<open>m\<close>, the score of \<open>m\<close>
  grows by exactly one, the other score and the turn stay; otherwise, if the nine cells
  are all taken, the result is a draw and the score stays; otherwise the turn passes to
  the other mark. The three cases exclude each other, so one call sets at most one of
  win and draw.
\<close>

theorem placeMark_outcome:
  assumes reach: "s = fst (run ops)"
    and live: "winner s = None"
    and idx: "0 \<le> idx" "idx \<le> 8"
    and free: "\<not> truthy (arr_get (board s) idx)"
  shows "let s' = placeMark idx s; b' = board s' in
     (\<forall>i \<in> {0 .. 8}. arr_get b' i = (if i = idx then Mark (current s) else arr_get (board s) i))
     \<and> (\<forall>m. three_in_line m b' \<longrightarrow>
            winner s' = Some (Won m)
            \<and> score_of (score s') m = score_of (score s) m + 1
            \<and> score_of (score s') (other m) = score_of (score s) (other m)
            \<and> current s' = current s)
     \<and> ((\<forall>m. \<not> three_in_line m b') \<and> cells_full b' \<longrightarrow>
            winner s' = Some Draw \<and> score s' = score s)
     \<and> ((\<forall>m. \<not> three_in_line m b') \<and> \<not> cells_full b' \<longrightarrow>
            winner s' = None \<and> score s' = score s \<and> current s' = other (current s))"
proof -
  let ?b = "arr_set (slice (board s)) idx (current s)"
  have c: "consistent s" unfolding reach by (rule consistent_run)
  with live have gw: "getWinner (board s) = None" and wf: "wf_board (board s)"
    by (auto simp: consistent_def)
  have nr: "\<not> rejected s idx" using live free by (simp add: rejected_def)
  have b: "board (placeMark idx s) = ?b"
    unfolding placeMark_def using nr by (rule board_makeMove)
  have wf': "wf_board ?b" using wf by (rule wf_board_write)
  have cells: "\<forall>i \<in> {0 .. 8}. arr_get ?b i = (if i = idx then Mark (current s) else arr_get (board s) i)"
    by (simp add: arr_get_write is_index_def)
  have win: "winner (placeMark idx s) = Some (Won m)
      \<and> score_of (score (placeMark idx s)) m = score_of (score s) m + 1
      \<and> score_of (score (placeMark idx s)) (other m) = score_of (score s) (other m)
      \<and> current (placeMark idx s) = current s" if "three_in_line m ?b" for m
  proof -
    from that gw have "getWinner ?b = Some m" by (simp add: getWinner_after_write)
    then show ?thesis unfolding placeMark_def makeMove_won[OF nr \<open>getWinner ?b = Some m\<close>]
      by (cases m) simp_all
  qed
  have draw: "winner (placeMark idx s) = Some Draw \<and> score (placeMark idx s) = score s"
    if "\<forall>m. \<not> three_in_line m ?b" "cells_full ?b"
  proof -
    from that have n: "getWinner ?b = None" and f: "isBoardFull ?b"
      using wf' by (simp_all add: getWinner_None cells_full_iff)
    show ?thesis unfolding placeMark_def makeMove_draw[OF nr n f] by simp
  qed
  have cont: "winner (placeMark idx s) = None \<and> score (placeMark idx s) = score s
      \<and> current (placeMark idx s) = other (current s)"
    if "\<forall>m. \<not> three_in_line m ?b" "\<not> cells_full ?b"
  proof -
    from that have n: "getWinner ?b = None" and f: "\<not> isBoardFull ?b"
      using wf' by (simp_all add: getWinner_None cells_full_iff)
    show ?thesis unfolding placeMark_def makeMove_continue[OF nr n f] using live by simp
  qed
  show ?thesis unfolding Let_def b using cells win draw cont by blast
qed

theorem placeMark_outcome_witness:
  "winner (fst (run scenario)) = None
   \<and> \<not> truthy (arr_get (board (fst (run scenario))) 2)
   \<and> three_in_line PX (board (placeMark 2 (fst (run scenario))))
   \<and> winner (placeMark 2 (fst (run scenario))) = Some (Won PX)
   \<and> score_of (score (placeMark 2 (fst (run scenario)))) PX
       = score_of (score (fst (run scenario))) PX + 1
   \<and> current (placeMark 2 (fst (run scenario))) = current (fst (run scenario))
   \<and> cells_full (board (placeMark 7 (fst (run (butlast draw_scenario)))))
   \<and> winner (placeMark 7 (fst (run (butlast draw_scenario)))) = Some Draw
   \<and> score (placeMark 7 (fst (run (butlast draw_scenario))))
       = score (fst (run (butlast draw_scenario)))
   \<and> \<not> cells_full (board (placeMark 4 initial))
   \<and> winner (placeMark 4 initial) = None
   \<and> current (placeMark 4 initial) = other (current initial)"
proof -
  have z: "(0::int) \<le> 2" "(2::int) \<le> 8" "(0::int) \<le> 7" "(7::int) \<le> 8"
    "(0::int) \<le> 4" "(4::int) \<le> 8" by simp_all
  have h1: "winner (fst (run scenario)) = None" by code_simp
  have h2: "\<not> truthy (arr_get (board (fst (run scenario))) 2)" by code_simp
  have h3: "three_in_line PX (board (placeMark 2 (fst (run scenario))))" by code_simp
  note win = placeMark_outcome[OF refl h1 z(1,2) h2, unfolded Let_def]
  have d1: "winner (fst (run (butlast draw_scenario))) = None" by code_simp
  have d2: "\<not> truthy (arr_get (board (fst (run (butlast draw_scenario)))) 7)" by code_simp
  have d3: "\<not> three_in_line m (board (placeMark 7 (fst (run (butlast draw_scenario)))))" for m
    by (cases m; hypsubst; code_simp)
  have d4: "cells_full (board (placeMark 7 (fst (run (butlast draw_scenario)))))" by code_simp
  note draw = placeMark_outcome[OF refl d1 z(3,4) d2, unfolded Let_def]
  have r: "initial = fst (run [])" by (simp add: run_def)
  have c1: "winner initial = None" by code_simp
  have c2: "\<not> truthy (arr_get (board initial) 4)" by code_simp
  have c3: "\<not> three_in_line m (board (placeMark 4 initial))" for m
    by (cases m; hypsubst; code_simp)
  have c4: "\<not> cells_full (board (placeMark 4 initial))" by code_simp
  note cont = placeMark_outcome[OF r c1 z(5,6) c2, unfolded Let_def]
  from win h3 have w: "winner (placeMark 2 (fst (run scenario))) = Some (Won PX)"
    "score_of (score (placeMark 2 (fst (run scenario)))) PX
       = score_of (score (fst (run scenario))) PX + 1"
    "current (placeMark 2 (fst (run scenario))) = current (fst (run scenario))"
    by blast+
  from draw d3 d4 have d: "winner (placeMark 7 (fst (run (butlast draw_scenario)))) = Some Draw"
    "score (placeMark 7 (fst (run (butlast draw_scenario))))
       = score (fst (run (butlast draw_scenario)))"
    by blast+
  from cont c3 c4 have c: "winner (placeMark 4 initial) = None"
    "current (placeMark 4 initial) = other (current initial)"
    by blast+
  show ?thesis by (intro conjI) (rule h1 h2 h3 w d4 d c4 c)+
qed

text \<open>
  Claim C2. For every state and every cell index of \<open>0..8\<close>, if the cell holds a mark or
  the round has ended, \<open>placeMark\<close> returns the state as it was: every field is
  unchanged. The model of \<open>makeMove\<close> has no error value, as the source has no
  \<^verbatim>\<open>throw\<close>.
\<close>

theorem placeMark_rejected:
  assumes "0 \<le> idx" "idx \<le> 8"
    and "truthy (arr_get (board s) idx) \<or> winner s \<noteq> None"
  shows "placeMark idx s = s"
  using assms(3) by (simp add: placeMark_def makeMove_def rejected_def)

theorem placeMark_rejected_witness:
  "truthy (arr_get (board (placeMark 0 initial)) 0)
   \<and> placeMark 0 (placeMark 0 initial) = placeMark 0 initial
   \<and> winner (placeMark 2 (fst (run scenario))) \<noteq> None
   \<and> placeMark 5 (placeMark 2 (fst (run scenario))) = placeMark 2 (fst (run scenario))"
proof -
  have h: "truthy (arr_get (board (placeMark 0 initial)) 0)" by code_simp
  have w: "winner (placeMark 2 (fst (run scenario))) \<noteq> None" by code_simp
  have z: "(0::int) \<le> 0" "(0::int) \<le> 8" "(0::int) \<le> 5" "(5::int) \<le> 8" by simp_all
  show ?thesis
    by (intro conjI)
      (rule h w placeMark_rejected[OF z(1,2) disjI1[OF h]] placeMark_rejected[OF z(3,4) disjI2[OF w]])+
qed

text \<open>
  Claim C3, as stated, fails: \<open>placeMark 9\<close> on the initial state is not a no-op. The
  slot \<open>board[9]\<close> reads \<^verbatim>\<open>undefined\<close>, so the guard lets the call through; the
  assignment grows the array to ten elements and the turn passes to O.
\<close>

theorem placeMark_outside_counterexample:
  "placeMark 9 initial \<noteq> initial
   \<and> length (elems (board (placeMark 9 initial))) = 10
   \<and> current (placeMark 9 initial) = PO"
proof -
  have 1: "length (elems (board (placeMark 9 initial))) = 10" by code_simp
  have 2: "current (placeMark 9 initial) = PO" by code_simp
  have 3: "current initial = PX" by code_simp
  from 2 3 have "placeMark 9 initial \<noteq> initial" by auto
  with 1 2 show ?thesis by blast
qed

text \<open>
  Claim C3, amended. For every state and every integer index outside \<open>0..8\<close>,
  \<open>placeMark\<close> never changes the nine cells, the mode or the starting player, and it is
  a no-op when the round has ended or the slot at that index already holds a mark. In a
  state reached by a sequence of operations it changes neither winner nor score, and
  when it is not rejected it stores the mark of \<open>current\<close> in that slot and passes the
  turn.
\<close>

theorem placeMark_outside:
  assumes out: "idx < 0 \<or> 8 < idx"
  shows "(\<forall>i \<in> {0 .. 8}. arr_get (board (placeMark idx s)) i = arr_get (board s) i)
     \<and> aiMode (placeMark idx s) = aiMode s
     \<and> startingPlayer (placeMark idx s) = startingPlayer s
     \<and> (rejected s idx \<longrightarrow> placeMark idx s = s)
     \<and> (\<forall>ops. s = fst (run ops) \<longrightarrow>
           winner (placeMark idx s) = winner s
           \<and> score (placeMark idx s) = score s
           \<and> (\<not> rejected s idx \<longrightarrow>
                 arr_get (board (placeMark idx s)) idx = Mark (current s)
                 \<and> current (placeMark idx s) = other (current s)))"
proof -
  let ?b = "arr_set (slice (board s)) idx (current s)"
  have same: "\<forall>i \<in> {0 .. 8}. arr_get ?b i = arr_get (board s) i"
    using out by (auto simp: arr_get_write is_index_def)
  have cells: "\<forall>i \<in> {0 .. 8}. arr_get (board (placeMark idx s)) i = arr_get (board s) i"
  proof (cases "rejected s idx")
    case True
    then show ?thesis by (simp add: placeMark_def makeMove_rejected)
  next
    case False
    then show ?thesis unfolding placeMark_def board_makeMove[OF False] using same by blast
  qed
  have frame: "aiMode (placeMark idx s) = aiMode s"
    "startingPlayer (placeMark idx s) = startingPlayer s"
    by (simp_all add: placeMark_def makeMove_def Let_def split: option.splits)
  have noop: "rejected s idx \<longrightarrow> placeMark idx s = s"
    by (simp add: placeMark_def makeMove_rejected)
  have reach: "winner (placeMark idx s) = winner s \<and> score (placeMark idx s) = score s
       \<and> (\<not> rejected s idx \<longrightarrow>
             arr_get (board (placeMark idx s)) idx = Mark (current s)
             \<and> current (placeMark idx s) = other (current s))"
    if r: "s = fst (run ops)" for ops
  proof (cases "rejected s idx")
    case True
    then show ?thesis by (simp add: placeMark_def makeMove_rejected)
  next
    case False
    have c: "consistent s" unfolding r by (rule consistent_run)
    from False have w: "winner s = None" by (simp add: rejected_def)
    with c have "getWinner (board s) = None" "\<not> cells_full (board s)" "wf_board (board s)"
      by (auto simp: consistent_def)
    then have n: "getWinner ?b = None" and f: "\<not> isBoardFull ?b"
      by (simp_all add: getWinner_cong[OF same] cells_full_cong[OF same] cells_full_iff
          wf_board_write)
    show ?thesis unfolding placeMark_def makeMove_continue[OF False n f]
      using w False by (simp add: arr_get_set_same)
  qed
  from cells frame noop reach show ?thesis by blast
qed

theorem placeMark_outside_witness:
  "arr_get (board (placeMark (- 1) initial)) 4 = arr_get (board initial) 4
   \<and> \<not> rejected initial (- 1)
   \<and> winner (placeMark (- 1) initial) = winner initial
   \<and> arr_get (board (placeMark (- 1) initial)) (- 1) = Mark (current initial)
   \<and> current (placeMark (- 1) initial) = other (current initial)
   \<and> rejected (placeMark 2 (fst (run scenario))) 9
   \<and> placeMark 9 (placeMark 2 (fst (run scenario))) = placeMark 2 (fst (run scenario))"
proof -
  have h: "(- 1 :: int) < 0 \<or> 8 < (- 1 :: int)" by simp
  have h9: "(9 :: int) < 0 \<or> 8 < (9 :: int)" by simp
  have r: "initial = fst (run [])" by (simp add: run_def)
  have n: "\<not> rejected initial (- 1)" by code_simp
  have j: "rejected (placeMark 2 (fst (run scenario))) 9" by code_simp
  have c: "(4 :: int) \<in> {0 .. 8}" by simp
  note t = placeMark_outside[OF h, of initial]
  note u = t[THEN conjunct2, THEN conjunct2, THEN conjunct2, THEN conjunct2,
      THEN spec, of "[]", THEN mp, OF r]
  note v = u[THEN conjunct2, THEN conjunct2, THEN mp, OF n]
  note t9 = placeMark_outside[OF h9, of "placeMark 2 (fst (run scenario))"]
  note w = t9[THEN conjunct2, THEN conjunct2, THEN conjunct2, THEN conjunct1, THEN mp, OF j]
  show ?thesis
    by (intro conjI) (rule t[THEN conjunct1, THEN bspec, OF c] n u[THEN conjunct1]
        v[THEN conjunct1] v[THEN conjunct2] j w)+
qed

subsection \<open>The mode button\<close>

lemma list_ex_write:
  assumes "list_ex truthy (elems a)"
  shows "list_ex truthy (elems (arr_set (slice a) i p))"
proof -
  from assms obtain n where n: "n < length (elems a)" "truthy (elems a ! n)"
    by (auto simp: list_ex_length)
  have l: "n < length (elems (arr_set (slice a) i p))"
    using n(1) by (auto simp: length_write is_index_def)
  have "truthy (elems (arr_set (slice a) i p) ! n)"
    using n by (simp add: nth_write[OF l])
  with l show ?thesis unfolding list_ex_length by blast
qed

lemma scores_makeMove:
  "scoreX (score s) \<le> scoreX (score (makeMove r idx s))
   \<and> scoreO (score s) \<le> scoreO (score (makeMove r idx s))"
proof -
  have "scoreX sc \<le> scoreX (bump p sc) \<and> scoreO sc \<le> scoreO (bump p sc)" for p sc
    by (cases p) simp_all
  then show ?thesis
    by (simp add: makeMove_def Let_def split: option.splits)
qed

lemma toggleDisabled_placeMark:
  assumes "toggleDisabled s"
  shows "toggleDisabled (placeMark idx s)"
proof (cases "rejected s idx")
  case True
  with assms show ?thesis by (simp add: placeMark_def makeMove_rejected)
next
  case False
  from assms consider "0 < scoreX (score s)" | "0 < scoreO (score s)"
    | "list_ex truthy (elems (board s))"
    unfolding toggleDisabled_def by auto
  then show ?thesis
  proof cases
    case 1
    with scores_makeMove[of s s idx] show ?thesis
      unfolding toggleDisabled_def placeMark_def by linarith
  next
    case 2
    with scores_makeMove[of s s idx] show ?thesis
      unfolding toggleDisabled_def placeMark_def by linarith
  next
    case 3
    then show ?thesis
      unfolding toggleDisabled_def placeMark_def board_makeMove[OF False]
      by (simp add: list_ex_write)
  qed
qed

lemma occupied_list_ex:
  assumes "\<not> cells_empty b"
  shows "list_ex truthy (elems b)"
proof -
  from assms obtain i where i: "0 \<le> i" "i \<le> 8" "truthy (arr_get b i)"
    unfolding cells_empty_def by auto
  have "i < int (length (elems b))"
  proof (rule ccontr)
    assume "\<not> i < int (length (elems b))"
    with i have "arr_get b i = Undefined" by (simp add: arr_get_def is_index_def)
    with i(3) show False by simp
  qed
  with i have "nat i < length (elems b)" "truthy (elems b ! nat i)"
    by (simp_all add: arr_get_def)
  then show ?thesis unfolding list_ex_length by blast
qed

lemma toggleDisabled_EMPTY:
  "toggleDisabled (s\<lparr>board := EMPTY_BOARD\<rparr>) \<longleftrightarrow> scoreX (score s) \<noteq> 0 \<or> scoreO (score s) \<noteq> 0"
  by (simp add: toggleDisabled_def elems_EMPTY)

text \<open>
  Claim C4, as stated, fails: the lock is not lifted by \<open>resetAll\<close> only. After one
  move the button is disabled; \<open>restartGame\<close> empties the board and both scores are
  still zero, so the button is enabled again and a click on it switches the mode on.
\<close>

theorem lock_lifted_by_restart:
  "toggleDisabled (fst (run [PlaceMark 0]))
   \<and> \<not> toggleDisabled (fst (run [PlaceMark 0, RestartRound]))
   \<and> \<not> aiMode (fst (run [PlaceMark 0, RestartRound]))
   \<and> aiMode (fst (run [PlaceMark 0, RestartRound, ToggleMode]))"
  by code_simp

text \<open>
  Claim C4, amended. The request to change the mode is the click on the mode button,
  which negates \<open>aiMode\<close>. It changes the mode only when the nine cells are empty and
  both scores are zero; when a cell is taken or a score is not zero the button is
  disabled and the state stays as it is. While the button is disabled, neither the
  button nor \<open>placeMark\<close> enables it; \<open>resetAll\<close> always enables it, and
  \<open>restartGame\<close> enables it exactly when both scores are zero.
\<close>

theorem toggleAI_lock:
  "(aiMode (toggleAI s) \<noteq> aiMode s \<longrightarrow>
      cells_empty (board s) \<and> scoreX (score s) = 0 \<and> scoreO (score s) = 0)
   \<and> (\<not> cells_empty (board s) \<or> scoreX (score s) \<noteq> 0 \<or> scoreO (score s) \<noteq> 0 \<longrightarrow>
      toggleDisabled s \<and> toggleAI s = s)
   \<and> (toggleDisabled s \<longrightarrow>
      toggleAI s = s
      \<and> toggleDisabled (placeMark idx s)
      \<and> (toggleDisabled (restartGame s) \<longleftrightarrow> scoreX (score s) \<noteq> 0 \<or> scoreO (score s) \<noteq> 0))
   \<and> \<not> toggleDisabled (resetAll s)"
proof -
  have lock: "toggleDisabled s"
    if "\<not> cells_empty (board s) \<or> scoreX (score s) \<noteq> 0 \<or> scoreO (score s) \<noteq> 0"
    using that occupied_list_ex[of "board s"] unfolding toggleDisabled_def by auto
  have noop: "toggleAI s = s" if "toggleDisabled s"
    using that by (simp add: toggleAI_def)
  have 1: "aiMode (toggleAI s) \<noteq> aiMode s \<longrightarrow>
      cells_empty (board s) \<and> scoreX (score s) = 0 \<and> scoreO (score s) = 0"
    using lock noop by fastforce
  have 2: "\<not> cells_empty (board s) \<or> scoreX (score s) \<noteq> 0 \<or> scoreO (score s) \<noteq> 0 \<longrightarrow>
      toggleDisabled s \<and> toggleAI s = s"
    using lock noop by blast
  have r: "toggleDisabled (restartGame s) \<longleftrightarrow> scoreX (score s) \<noteq> 0 \<or> scoreO (score s) \<noteq> 0"
    by (simp add: restartGame_def Let_def toggleDisabled_def elems_EMPTY)
  have 4: "\<not> toggleDisabled (resetAll s)"
    by (simp add: resetAll_def toggleDisabled_def elems_EMPTY)
  from 1 2 noop toggleDisabled_placeMark r 4 show ?thesis by blast
qed

theorem toggleAI_lock_witness:
  "toggleDisabled (placeMark 0 initial)
   \<and> toggleAI (placeMark 0 initial) = placeMark 0 initial
   \<and> toggleDisabled (placeMark 1 (placeMark 0 initial))
   \<and> \<not> toggleDisabled (restartGame (placeMark 0 initial))
   \<and> toggleDisabled (restartGame (placeMark 2 (fst (run scenario))))
   \<and> \<not> toggleDisabled (resetAll (placeMark 2 (fst (run scenario))))
   \<and> aiMode (toggleAI initial) \<noteq> aiMode initial
   \<and> cells_empty (board initial)"
proof -
  have d: "toggleDisabled (placeMark 0 initial)" by code_simp
  have z: "\<not> (scoreX (score (placeMark 0 initial)) \<noteq> 0 \<or> scoreO (score (placeMark 0 initial)) \<noteq> 0)"
    by code_simp
  have d2: "toggleDisabled (placeMark 2 (fst (run scenario)))" by code_simp
  have nz: "scoreX (score (placeMark 2 (fst (run scenario)))) \<noteq> 0
            \<or> scoreO (score (placeMark 2 (fst (run scenario)))) \<noteq> 0"
    by code_simp
  have a: "aiMode (toggleAI initial) \<noteq> aiMode initial" by code_simp
  note t = toggleAI_lock[of "placeMark 0 initial" 1]
  note t2 = toggleAI_lock[of "placeMark 2 (fst (run scenario))" 0]
  note t3 = toggleAI_lock[of initial 0]
  from t d z t2 d2 nz t3 a show ?thesis by blast
qed

subsection \<open>Restart and reset\<close>

lemma cells_empty_EMPTY: "cells_empty EMPTY_BOARD"
  by (auto simp: cells_empty_def arr_get_def EMPTY_BOARD_def)

text \<open>
  Claim C6. For every state, \<open>restartGame\<close> gives nine empty cells and no result,
  flips the starting player and gives the turn to the new starting player; score and
  mode stay as they were.
\<close>

theorem restartGame_effect:
  "elems (board (restartGame s)) = replicate 9 Null
   \<and> cells_empty (board (restartGame s))
   \<and> winner (restartGame s) = None
   \<and> startingPlayer (restartGame s) = other (startingPlayer s)
   \<and> current (restartGame s) = other (startingPlayer s)
   \<and> score (restartGame s) = score s
   \<and> aiMode (restartGame s) = aiMode s"
  using cells_empty_EMPTY by (simp add: restartGame_def Let_def EMPTY_BOARD_def)

theorem restartGame_effect_witness:
  "winner (placeMark 2 (fst (run scenario))) = Some (Won PX)
   \<and> startingPlayer (placeMark 2 (fst (run scenario))) = PX
   \<and> winner (restartGame (placeMark 2 (fst (run scenario)))) = None
   \<and> current (restartGame (placeMark 2 (fst (run scenario)))) = PO
   \<and> startingPlayer (restartGame (placeMark 2 (fst (run scenario)))) = PO
   \<and> score (restartGame (placeMark 2 (fst (run scenario)))) = \<lparr>scoreX = 1, scoreO = 0\<rparr>
   \<and> cells_empty (board (restartGame (placeMark 2 (fst (run scenario)))))"
proof -
  have w: "winner (placeMark 2 (fst (run scenario))) = Some (Won PX)" by code_simp
  have p: "startingPlayer (placeMark 2 (fst (run scenario))) = PX" by code_simp
  have sc: "score (placeMark 2 (fst (run scenario))) = \<lparr>scoreX = 1, scoreO = 0\<rparr>" by code_simp
  from restartGame_effect[of "placeMark 2 (fst (run scenario))"] w p sc show ?thesis
    by simp
qed

text \<open>
  Claim C7. For every state, \<open>resetAll\<close> gives the initial state, the one the
  \<^verbatim>\<open>useState\<close> calls create: nine empty cells, no result, both scores zero, the mode
  off, X starting and X to move.
\<close>

theorem resetAll_effect:
  "resetAll s = initial
   \<and> elems (board initial) = replicate 9 Null
   \<and> cells_empty (board initial)
   \<and> winner initial = None
   \<and> score initial = \<lparr>scoreX = 0, scoreO = 0\<rparr>
   \<and> aiMode initial = False
   \<and> startingPlayer initial = PX
   \<and> current initial = PX"
  using cells_empty_EMPTY by (simp add: resetAll_def initial_def EMPTY_BOARD_def)

theorem resetAll_effect_witness:
  "resetAll (placeMark 2 (fst (run scenario))) = initial
   \<and> placeMark 2 (fst (run scenario)) \<noteq> initial"
proof -
  have "winner (placeMark 2 (fst (run scenario))) = Some (Won PX)" by code_simp
  moreover have "winner initial = None" by code_simp
  ultimately have "placeMark 2 (fst (run scenario)) \<noteq> initial" by auto
  with resetAll_effect[of "placeMark 2 (fst (run scenario))"] show ?thesis by blast
qed

subsection \<open>Exchanging the marks\<close>

lemma arr_get_swap: "arr_get (swap_board b) i = swap_cell (arr_get b i)"
  by (auto simp: arr_get_def swap_board_def split: option.splits)

lemma truthy_swap: "truthy (swap_cell c) = truthy c"
  by (cases c) auto

lemma other_inj: "other p = other q \<longleftrightarrow> p = q"
  by (cases p; cases q) auto

lemma swap_cell_inj: "swap_cell c = swap_cell d \<longleftrightarrow> c = d"
  by (cases c; cases d) (auto simp: other_inj)

lemma player_of_swap: "player_of (swap_cell c) = map_option other (player_of c)"
  by (cases c) auto

lemma scan_swap: "scan ls (swap_board b) = map_option other (scan ls b)"
proof (induction ls)
  case Nil
  show ?case by simp
next
  case (Cons l ls)
  obtain i j k where l: "l = (i, j, k)" by (cases l) auto
  show ?case unfolding l scan_Cons arr_get_swap using Cons
    by (cases "arr_get b i"; cases "arr_get b j"; cases "arr_get b k")
      (auto simp: other_inj)
qed

text \<open>
  Claim C9. For every board, the winner of the board with X and O exchanged in every
  cell is the winner of the board, exchanged.
\<close>

theorem getWinner_swap: "getWinner (swap_board b) = map_option other (getWinner b)"
  unfolding getWinner_def by (rule scan_swap)

theorem getWinner_swap_witness:
  "getWinner (board (placeMark 2 (fst (run scenario)))) = Some PX
   \<and> getWinner (swap_board (board (placeMark 2 (fst (run scenario))))) = Some PO"
proof -
  have w: "getWinner (board (placeMark 2 (fst (run scenario)))) = Some PX" by code_simp
  from getWinner_swap[of "board (placeMark 2 (fst (run scenario)))"] w show ?thesis by simp
qed

subsection \<open>The event loop\<close>

lemma aiMove_validated:
  assumes "aiMove r k = Some move"
  shows "validated (r, move)"
proof -
  let ?open = "getAvailableMoves (board r)"
  from assms have g: "aiMode r" "winner r = None" "current r = PO"
    and l: "0 < length ?open" and m: "move = ?open ! (k mod length ?open)"
    by (auto simp: aiMove_def Let_def split: if_splits)
  from l have "k mod length ?open < length ?open" by simp
  with m have "move \<in> set ?open" by simp
  then obtain n where "move = int n" "n < length (elems (board r))" "elems (board r) ! n = Null"
    by (auto simp: getAvailableMoves_def)
  with g show ?thesis by (simp add: validated_def)
qed

lemma validated_effect:
  assumes "\<forall>t \<in> set (timers c). validated t"
  shows "\<forall>t \<in> set (timers (effect k c)). validated t"
  using assms aiMove_validated[of "live c" k]
  by (auto simp: effect_def split: option.splits)

lemma validated_step:
  assumes "\<forall>t \<in> set (timers c). validated t"
  shows "\<forall>t \<in> set (timers (sys_step e k c)). validated t"
proof -
  have e: "\<forall>t \<in> set (timers (effect k c')). validated t"
    if "set (timers c') \<subseteq> set (timers c)" for c'
    using that assms by (intro validated_effect) blast
  show ?thesis
  proof (cases e)
    case (Click idx)
    have "\<forall>t \<in> set (timers (effect k (c\<lparr>live := placeMark idx (live c)\<rparr>))). validated t"
      by (rule e) simp
    with assms show ?thesis unfolding Click sys_step.simps
      by (cases "rejected (live c) idx") (simp_all only: if_True if_False)
  next
    case Restart
    show ?thesis unfolding Restart sys_step.simps by (rule e) simp
  next
    case Reset
    show ?thesis unfolding Reset sys_step.simps by (rule e) simp
  next
    case Toggle
    have "\<forall>t \<in> set (timers (effect k (c\<lparr>live := toggleAI (live c)\<rparr>))). validated t"
      by (rule e) simp
    with assms show ?thesis unfolding Toggle sys_step.simps
      by (cases "toggleDisabled (live c)") (simp_all only: if_True if_False)
  next
    case Fire
    show ?thesis
    proof (cases "timers c")
      case Nil
      with assms show ?thesis unfolding Fire by simp
    next
      case (Cons t rest)
      obtain r move where t: "t = (r, move)" by (cases t) auto
      have sub: "set rest \<subseteq> set (timers c)" using Cons by auto
      have 1: "\<forall>t \<in> set (timers (c\<lparr>timers := rest\<rparr>)). validated t"
        using assms sub by auto
      have 2: "\<forall>t \<in> set (timers (effect k (c\<lparr>live := makeMove r move (live c), timers := rest\<rparr>))). validated t"
        by (rule e) (simp add: sub)
      from 1 2 show ?thesis unfolding Fire sys_step.simps Cons t
        by (cases "rejected r move") (simp_all only: list.case prod.case if_True if_False)
    qed
  qed
qed

lemma sys_run_snoc: "sys_run (evs @ [(e, k)]) c = sys_step e k (sys_run evs c)"
  by (simp add: sys_run_def)

lemma validated_run: "\<forall>t \<in> set (timers (sys_run evs sys_initial)). validated t"
proof (induction evs rule: rev_induct)
  case Nil
  show ?case by (simp add: sys_run_def sys_initial_def)
next
  case (snoc ev evs)
  obtain e k where "ev = (e, k)" by (cases ev) auto
  with snoc show ?case by (simp add: sys_run_snoc validated_step)
qed

lemma live_effect: "live (effect k c) = live c"
  by (simp add: effect_def split: option.splits)

lemma timers_effect:
  "set (timers (effect k c)) \<subseteq> set (timers c) \<union> {(live c, m) | m. aiMove (live c) k = Some m}"
  by (auto simp: effect_def split: option.splits)

lemma sized_effect:
  assumes "sized c"
  shows "sized (effect k c)"
proof -
  have "length (elems (board (fst t))) = 9 \<and> validated t" if "t \<in> set (timers (effect k c))" for t
  proof -
    from that timers_effect[of k c] consider "t \<in> set (timers c)"
      | m where "t = (live c, m)" "aiMove (live c) k = Some m" by blast
    then show ?thesis
    proof cases
      case 1
      with assms show ?thesis by (simp add: sized_def)
    next
      case 2
      with assms aiMove_validated[of "live c" k m] show ?thesis by (simp add: sized_def)
    qed
  qed
  with assms show ?thesis by (simp add: sized_def live_effect)
qed

lemma live_step_event: "live (sys_step (event_of op) k c) = apply_op op (live c)"
proof (cases op)
  case (PlaceMark idx)
  then show ?thesis
    by (cases "rejected (live c) idx")
      (simp_all add: live_effect placeMark_def makeMove_rejected)
next
  case ToggleMode
  then show ?thesis
    by (cases "toggleDisabled (live c)") (simp_all add: live_effect toggleAI_def)
qed (simp_all add: live_effect)

lemma run_in_sys_run:
  "fst (run ops) = live (sys_run (map (\<lambda>op. (event_of op, k)) ops) sys_initial)"
proof (induction ops rule: rev_induct)
  case Nil
  show ?case by (simp add: run_def sys_run_def sys_initial_def)
next
  case (snoc op ops)
  then show ?case by (simp add: run_snoc op_step_def sys_run_snoc live_step_event)
qed

text \<open>
  Claim C5 fails on the code at the run \<open>stale_cfg\<close>. When the pending timer fires
  the mode is off, the turn is X's and the board is empty, so none of the three
  preconditions of a computer move holds; yet the call is not a no-op. \<open>aiMove\<close>
  checked them in the render that set the timer, and the \<open>makeMove\<close> the timer holds
  reads the board, the winner and the turn of that render: the board becomes that
  render's board with O in cell 1, and X is back in cell 0 after the reset.
\<close>

theorem stale_timer_after_reset:
  "length (timers stale_cfg) = 1
   \<and> \<not> aiMode (live stale_cfg)
   \<and> current (live stale_cfg) = PX
   \<and> arr_get (board (live stale_cfg)) 0 = Null
   \<and> arr_get (board (live stale_cfg)) 1 = Null
   \<and> arr_get (board (live (sys_step Fire 0 stale_cfg))) 0 = Mark PX
   \<and> arr_get (board (live (sys_step Fire 0 stale_cfg))) 1 = Mark PO"
  by code_simp

subsection \<open>The result and the board\<close>

lemma won_keeps_turn:
  "\<not> rejected s idx \<Longrightarrow> winner (placeMark idx s) = Some (Won m) \<Longrightarrow>
   current (placeMark idx s) = current s"
  by (auto simp: placeMark_def makeMove_def rejected_def Let_def split: option.splits if_splits)

lemma placer_run: "winner (fst (run ops)) = Some (Won m) \<Longrightarrow> snd (run ops) = Some m"
proof (induction ops arbitrary: m rule: rev_induct)
  case Nil
  then show ?case by (simp add: run_def initial_def)
next
  case (snoc op ops)
  let ?s = "fst (run ops)"
  show ?case
  proof (cases op)
    case (PlaceMark idx)
    show ?thesis
    proof (cases "rejected ?s idx")
      case True
      with snoc PlaceMark show ?thesis
        by (simp add: run_snoc op_step_def placeMark_def makeMove_rejected)
    next
      case False
      from snoc.prems PlaceMark have w: "winner (placeMark idx ?s) = Some (Won m)"
        by (simp add: run_snoc op_step_def)
      have "consistent (placeMark idx ?s)"
        using consistent_run by (rule consistent_placeMark)
      with w have "current (placeMark idx ?s) = m" by (simp add: consistent_def)
      with won_keeps_turn[OF False w] have "current ?s = m" by simp
      with False PlaceMark show ?thesis by (simp add: run_snoc op_step_def)
    qed
  next
    case RestartRound
    with snoc.prems show ?thesis by (simp add: run_snoc op_step_def restartGame_def Let_def)
  next
    case ResetAll
    with snoc.prems show ?thesis by (simp add: run_snoc op_step_def resetAll_def)
  next
    case ToggleMode
    with snoc show ?thesis by (simp add: run_snoc op_step_def toggleAI_def split: if_splits)
  qed
qed

text \<open>
  As long as every operation is applied to the state the component has, the stored
  result agrees with \<open>getWinner\<close> of the stored board: with no result there is no
  winner on the board; with the result \<open>Won m\<close> the winner on the board is \<open>m\<close>, and
  \<open>m\<close> is the mark of the last placement that was not rejected; with a draw the nine
  cells are taken and there is no winner on the board.
\<close>

lemma direct_result_consistent:
  "(winner (fst (run ops)) = None \<longrightarrow> getWinner (board (fst (run ops))) = None)
   \<and> (\<forall>m. winner (fst (run ops)) = Some (Won m) \<longrightarrow>
          getWinner (board (fst (run ops))) = Some m \<and> snd (run ops) = Some m)
   \<and> (winner (fst (run ops)) = Some Draw \<longrightarrow>
          cells_full (board (fst (run ops))) \<and> getWinner (board (fst (run ops))) = None)"
  using consistent_run[of ops] placer_run[of ops] unfolding consistent_def by blast

text \<open>
  Claim C10 fails on the code at the run \<open>stale_win_cfg\<close>. Before the pending timer
  fires the result is \<open>Won PO\<close> and O holds the line 3, 4, 5. The timer then stores the
  board of the render that set it, with O in cell 7: the O in cell 5 is gone, no line
  is complete, and the stored result is still \<open>Won PO\<close>.
\<close>

theorem stale_timer_after_win:
  "map snd (timers stale_win_cfg) = [7]
   \<and> winner (live stale_win_cfg) = Some (Won PO)
   \<and> getWinner (board (live stale_win_cfg)) = Some PO
   \<and> arr_get (board (live stale_win_cfg)) 5 = Mark PO
   \<and> winner (live (sys_step Fire 0 stale_win_cfg)) = Some (Won PO)
   \<and> getWinner (board (live (sys_step Fire 0 stale_win_cfg))) = None
   \<and> arr_get (board (live (sys_step Fire 0 stale_win_cfg))) 5 = Null
   \<and> arr_get (board (live (sys_step Fire 0 stale_win_cfg))) 7 = Mark PO"
  by code_simp

subsection \<open>The length of the board\<close>

text \<open>
  Claim C8, as stated, fails: after \<open>placeMark 9\<close> on the initial state the board has
  ten elements.
\<close>

theorem board_length_counterexample:
  "length (elems (board (fst (run [PlaceMark 9])))) = 10"
  by code_simp

lemma mark_stays:
  assumes "i \<in> {0 .. 8}" and "truthy (arr_get (board s) i)"
  shows "arr_get (board (placeMark idx s)) i = arr_get (board s) i"
proof (cases "rejected s idx")
  case True
  then show ?thesis by (simp add: placeMark_def makeMove_rejected)
next
  case False
  with assms(2) have "i \<noteq> idx" by (auto simp: rejected_def)
  with assms(1) show ?thesis
    unfolding placeMark_def board_makeMove[OF False] by (simp add: arr_get_write is_index_def)
qed

lemma length_makeMove:
  assumes "length (elems (board r)) = 9" and "length (elems (board s)) = 9"
    and "0 \<le> idx" and "idx \<le> 8"
  shows "length (elems (board (makeMove r idx s))) = 9"
proof (cases "rejected r idx")
  case True
  with assms show ?thesis by (simp add: makeMove_rejected)
next
  case False
  with assms show ?thesis by (simp add: board_makeMove length_write)
qed

lemma sized_step:
  assumes c: "sized c" and ev: "click_in_range (e, k)"
  shows "sized (sys_step e k c)"
proof -
  from c have l: "length (elems (board (live c))) = 9"
    and t: "\<And>t. t \<in> set (timers c) \<Longrightarrow> length (elems (board (fst t))) = 9 \<and> validated t"
    by (auto simp: sized_def)
  have keep: "sized (effect k (c\<lparr>live := s\<rparr>))" if "length (elems (board s)) = 9" for s
    by (rule sized_effect) (use that t in \<open>simp add: sized_def\<close>)
  show ?thesis
  proof (cases e)
    case (Click idx)
    with ev have idx: "0 \<le> idx" "idx \<le> 8" by (simp_all add: click_in_range_def)
    have "sized (effect k (c\<lparr>live := placeMark idx (live c)\<rparr>))"
      by (rule keep) (simp add: placeMark_def length_makeMove l idx)
    with c show ?thesis unfolding Click sys_step.simps
      by (cases "rejected (live c) idx") (simp_all only: if_True if_False)
  next
    case Restart
    show ?thesis unfolding Restart sys_step.simps
      by (rule keep) (simp add: restartGame_def Let_def elems_EMPTY)
  next
    case Reset
    show ?thesis unfolding Reset sys_step.simps
      by (rule keep) (simp add: resetAll_def elems_EMPTY)
  next
    case Toggle
    have "sized (effect k (c\<lparr>live := toggleAI (live c)\<rparr>))"
      by (rule keep) (simp add: toggleAI_def l)
    with c show ?thesis unfolding Toggle sys_step.simps
      by (cases "toggleDisabled (live c)") (simp_all only: if_True if_False)
  next
    case Fire
    show ?thesis
    proof (cases "timers c")
      case Nil
      with c show ?thesis unfolding Fire by simp
    next
      case (Cons tm rest)
      obtain r move where tm: "tm = (r, move)" by (cases tm) auto
      from t[of tm] Cons tm have r: "length (elems (board r)) = 9" and v: "validated (r, move)"
        by simp_all
      from v r have mv: "0 \<le> move" "move \<le> 8" by (simp_all add: validated_def)
      have rest: "\<And>t. t \<in> set rest \<Longrightarrow> length (elems (board (fst t))) = 9 \<and> validated t"
        using t Cons by simp
      have 1: "sized (c\<lparr>timers := rest\<rparr>)"
        using l rest by (simp add: sized_def)
      have 2: "sized (effect k (c\<lparr>live := makeMove r move (live c), timers := rest\<rparr>))"
        by (rule sized_effect) (use rest in \<open>simp add: sized_def length_makeMove r l mv\<close>)
      from 1 2 show ?thesis unfolding Fire sys_step.simps Cons tm
        by (cases "rejected r move") (simp_all only: list.case prod.case if_True if_False)
    qed
  qed
qed

lemma sized_run: "list_all click_in_range evs \<Longrightarrow> sized (sys_run evs sys_initial)"
proof (induction evs rule: rev_induct)
  case Nil
  show ?case by (simp add: sys_run_def sys_initial_def sized_def initial_def elems_EMPTY)
next
  case (snoc ev evs)
  obtain e k where ev: "ev = (e, k)" by (cases ev) auto
  with snoc show ?case by (simp add: sys_run_snoc sized_step)
qed

text \<open>
  Claim C8, amended. After every run of the event loop whose clicks are all on cells
  \<open>0..8\<close> (with restarts, resets, clicks on the mode button and timers firing in
  between) the board has exactly nine elements; and in every state neither
  \<open>placeMark\<close>, at whatever integer index, nor the mode button changes a cell that
  holds a mark.
\<close>

theorem board_length_and_marks:
  assumes "list_all click_in_range evs"
  shows "length (elems (board (live (sys_run evs sys_initial)))) = 9
     \<and> (\<forall>idx. \<forall>i \<in> {0 .. 8}. truthy (arr_get (board s) i) \<longrightarrow>
            arr_get (board (placeMark idx s)) i = arr_get (board s) i)
     \<and> board (toggleAI s) = board s"
proof -
  have "board (toggleAI s) = board s" by (simp add: toggleAI_def)
  with sized_run[OF assms] mark_stays show ?thesis unfolding sized_def by blast
qed

theorem board_length_and_marks_witness:
  "list_all click_in_range (stale_win_run @ [(Fire, 0)])
   \<and> length (elems (board (live (sys_run (stale_win_run @ [(Fire, 0)]) sys_initial)))) = 9
   \<and> truthy (arr_get (board (fst (run scenario))) 3)
   \<and> arr_get (board (placeMark 20 (fst (run scenario)))) 3 = arr_get (board (fst (run scenario))) 3"
proof -
  have r: "list_all click_in_range (stale_win_run @ [(Fire, 0)])" by code_simp
  have t: "truthy (arr_get (board (fst (run scenario))) 3)" by code_simp
  have c: "(3 :: int) \<in> {0 .. 8}" by simp
  note u = board_length_and_marks[OF r, of "fst (run scenario)"]
  note v = u[THEN conjunct2, THEN conjunct1, THEN spec, of 20, THEN bspec, OF c, THEN mp, OF t]
  show ?thesis by (intro conjI) (rule r t u[THEN conjunct1] v)+
qed

end
